theory Spec2Isabelle
  imports Main
begin

section \<open>The sliding-log rate limiter of \<^verbatim>\<open>rate_limiter.py\<close>\<close>

text \<open>
  The class \<^verbatim>\<open>FixedWindowRateLimiter\<close> keeps two configuration fields and a
  \<^verbatim>\<open>defaultdict(deque)\<close> from client identifiers to timestamp logs.
  Python's unbounded integers are \<open>int\<close>; a deque is a list whose head is the
  left end; the dictionary is a map. Client identifiers are any hashable value, so the
  key type is a type variable.
\<close>

record 'c limiter =
  max_requests :: int
  window_size :: int
  request_logs :: "'c \<rightharpoonup> int list"

datatype error = InvalidConfiguration

text \<open>
  The state \<^verbatim>\<open>__init__\<close> builds: both arguments stored as given, and an empty
  dictionary.
\<close>

definition fresh :: "int \<Rightarrow> int \<Rightarrow> 'c limiter" where
  "fresh mr ws = \<lparr>max_requests = mr, window_size = ws, request_logs = Map.empty\<rparr>"

text \<open>
  \<^verbatim>\<open>__init__\<close> (lines 40-44) as a fallible operation. The body has three
  assignments and no \<^verbatim>\<open>raise\<close>, so every result is \<open>Inr\<close>.
\<close>

definition init :: "int \<Rightarrow> int \<Rightarrow> error + 'c limiter" where
  "init mr ws = Inr (fresh mr ws)"

text \<open>
  \<^verbatim>\<open>self.request_logs[clientId]\<close> on a \<^verbatim>\<open>defaultdict(deque)\<close>: a missing key
  reads as the empty deque.
\<close>

definition get_log :: "'c limiter \<Rightarrow> 'c \<Rightarrow> int list" where
  "get_log s clientId = (case request_logs s clientId of None \<Rightarrow> [] | Some l \<Rightarrow> l)"

text \<open>
  The loop of lines 49-50:
  \<^verbatim>\<open>while log and (curr_time - log[0]) >= window_size: log.popleft()\<close>.
  Each iteration removes the head, so the recursion is structural on the log.
\<close>

fun expire :: "int \<Rightarrow> int \<Rightarrow> int list \<Rightarrow> int list" where
  "expire ws curr_time [] = []"
| "expire ws curr_time (ts # log) =
     (if curr_time - ts \<ge> ws then expire ws curr_time log else ts # log)"

text \<open>
  \<^verbatim>\<open>allowRequest\<close> (lines 46-58): expire, compare the remaining length with
  \<^verbatim>\<open>max_requests\<close>, append on success. The entry for \<^verbatim>\<open>clientId\<close> exists
  afterwards in every case, since the first subscript creates it.
\<close>

definition allowRequest :: "'c limiter \<Rightarrow> 'c \<Rightarrow> int \<Rightarrow> bool \<times> 'c limiter" where
  "allowRequest s clientId curr_time =
     (let log = expire (window_size s) curr_time (get_log s clientId);
          valid = int (length log) < max_requests s;
          log' = (if valid then log @ [curr_time] else log)
      in (valid, s\<lparr>request_logs := (request_logs s)(clientId \<mapsto> log')\<rparr>))"

subsection \<open>Sequences of calls\<close>

text \<open>
  A caller issues calls one after another on one instance. \<open>exec\<close> is the state
  after a sequence of calls, \<open>results\<close> the booleans they returned, in order.
\<close>

fun exec :: "'c limiter \<Rightarrow> ('c \<times> int) list \<Rightarrow> 'c limiter" where
  "exec s [] = s"
| "exec s ((c, t) # calls) = exec (snd (allowRequest s c t)) calls"

fun results :: "'c limiter \<Rightarrow> ('c \<times> int) list \<Rightarrow> bool list" where
  "results s [] = []"
| "results s ((c, t) # calls) =
     fst (allowRequest s c t) # results (snd (allowRequest s c t)) calls"

text \<open>The calls of one client, and the timestamps they carry.\<close>

definition client_calls :: "'c \<Rightarrow> ('c \<times> int) list \<Rightarrow> ('c \<times> int) list" where
  "client_calls c calls = filter (\<lambda>call. fst call = c) calls"

definition client_times :: "'c \<Rightarrow> ('c \<times> int) list \<Rightarrow> int list" where
  "client_times c calls = map snd (client_calls c calls)"

text \<open>The results returned to one client, in the order of its calls.\<close>

definition client_results :: "'c \<Rightarrow> 'c limiter \<Rightarrow> ('c \<times> int) list \<Rightarrow> bool list" where
  "client_results c s calls =
     map snd (filter (\<lambda>p. fst (fst p) = c) (zip calls (results s calls)))"

text \<open>The timestamps of the calls of client \<open>c\<close> that returned true.\<close>

definition admitted :: "'c \<Rightarrow> 'c limiter \<Rightarrow> ('c \<times> int) list \<Rightarrow> int list" where
  "admitted c s calls =
     map (snd \<circ> fst) (filter (\<lambda>p. fst (fst p) = c \<and> snd p) (zip calls (results s calls)))"

text \<open>The half-open time interval of length \<open>ws\<close> that starts at \<open>a\<close>.\<close>

definition in_window :: "int \<Rightarrow> int \<Rightarrow> int \<Rightarrow> bool" where
  "in_window a ws ts = (a \<le> ts \<and> ts < a + ws)"

section \<open>Basic facts\<close>

lemma expire_dropWhile: "expire ws t log = dropWhile (\<lambda>ts. t - ts \<ge> ws) log"
  by (induction log) simp_all

lemma allowRequest_fst:
  "fst (allowRequest s c t) = (int (length (expire (window_size s) t (get_log s c))) < max_requests s)"
  by (simp add: allowRequest_def Let_def)

lemma allowRequest_config:
  "max_requests (snd (allowRequest s c t)) = max_requests s"
  "window_size (snd (allowRequest s c t)) = window_size s"
  by (simp_all add: allowRequest_def Let_def)

lemma allowRequest_log_same:
  "get_log (snd (allowRequest s c t)) c =
     (if fst (allowRequest s c t)
      then expire (window_size s) t (get_log s c) @ [t]
      else expire (window_size s) t (get_log s c))"
  by (simp add: allowRequest_def Let_def get_log_def)

lemma allowRequest_log_other:
  "c' \<noteq> c \<Longrightarrow> get_log (snd (allowRequest s c t)) c' = get_log s c'"
  by (simp add: allowRequest_def Let_def get_log_def)

subsection \<open>Runs of calls\<close>

lemma exec_append: "exec s (xs @ ys) = exec (exec s xs) ys"
  by (induction s xs rule: exec.induct) simp_all

lemma exec_config:
  "max_requests (exec s calls) = max_requests s \<and> window_size (exec s calls) = window_size s"
  by (induction s calls rule: exec.induct) (simp_all add: allowRequest_config)

lemma get_log_fresh: "get_log (fresh mr ws) c = []"
  by (simp add: get_log_def fresh_def)

lemma length_expire_le: "length (expire ws t log) \<le> length log"
  by (induction log) simp_all

lemma allowRequest_bounded:
  "int (length (get_log s c)) \<le> max (max_requests s) 0 \<Longrightarrow>
   int (length (get_log (snd (allowRequest s c' t)) c)) \<le> max (max_requests s) 0"
proof (cases "c = c'")
  case True
  assume b: "int (length (get_log s c)) \<le> max (max_requests s) 0"
  have "length (expire (window_size s) t (get_log s c)) \<le> length (get_log s c)"
    by (rule length_expire_le)
  with b True show ?thesis
    by (simp add: allowRequest_log_same allowRequest_fst)
next
  case False
  assume "int (length (get_log s c)) \<le> max (max_requests s) 0"
  with False show ?thesis by (simp add: allowRequest_log_other)
qed

lemma exec_bounded:
  "int (length (get_log s c)) \<le> max (max_requests s) 0 \<Longrightarrow>
   int (length (get_log (exec s calls) c)) \<le> max (max_requests s) 0"
proof (induction s calls rule: exec.induct)
  case (1 s)
  then show ?case by simp
next
  case (2 s c' t calls)
  from allowRequest_bounded [OF "2.prems"]
  have "int (length (get_log (snd (allowRequest s c' t)) c))
          \<le> max (max_requests (snd (allowRequest s c' t))) 0"
    by (simp add: allowRequest_config)
  from "2.IH" [OF this] show ?case by (simp add: allowRequest_config)
qed

lemma length_expire_same: "length (expire ws t log) = length log \<Longrightarrow> expire ws t log = log"
proof (induction log)
  case Nil
  then show ?case by simp
next
  case (Cons x xs)
  have "length (expire ws t xs) \<le> length xs" by (rule length_expire_le)
  with Cons.prems show ?case by (simp split: if_splits)
qed

subsection \<open>The calls and results of one client\<close>

lemma client_results_Nil: "client_results c s [] = []"
  by (simp add: client_results_def)

lemma client_results_Cons:
  "client_results c s ((c', t) # calls) =
     (if c' = c then [fst (allowRequest s c' t)] else [])
       @ client_results c (snd (allowRequest s c' t)) calls"
  by (simp add: client_results_def)

lemma client_calls_Cons:
  "client_calls c ((c', t) # calls) = (if c' = c then [(c', t)] else []) @ client_calls c calls"
  by (simp add: client_calls_def)

lemma client_results_project:
  "max_requests s' = max_requests s \<Longrightarrow> window_size s' = window_size s \<Longrightarrow>
   get_log s' c = get_log s c \<Longrightarrow>
   client_results c s calls = client_results c s' (client_calls c calls)"
proof (induction s calls arbitrary: s' rule: exec.induct)
  case (1 s)
  then show ?case by (simp add: client_results_def client_calls_def)
next
  case (2 s c' t calls)
  show ?case
  proof (cases "c' = c")
    case True
    have "client_results c (snd (allowRequest s c' t)) calls
        = client_results c (snd (allowRequest s' c' t)) (client_calls c calls)"
      using "2.prems" True
      by (intro "2.IH") (simp_all add: allowRequest_config allowRequest_log_same allowRequest_fst)
    with True "2.prems" show ?thesis
      by (simp add: client_results_Cons client_calls_Cons allowRequest_fst)
  next
    case False
    have "client_results c (snd (allowRequest s c' t)) calls
        = client_results c s' (client_calls c calls)"
      using "2.prems" False
      by (intro "2.IH") (simp_all add: allowRequest_config allowRequest_log_other)
    with False show ?thesis
      by (simp add: client_results_Cons client_calls_Cons)
  qed
qed

subsection \<open>Logs under non-decreasing timestamps\<close>

lemma set_expire_subset: "set (expire ws t log) \<subseteq> set log"
  by (induction log) auto

lemma expire_retained_young:
  "sorted log \<Longrightarrow> x \<in> set (expire ws t log) \<Longrightarrow> t - x < ws"
  by (induction log) (auto split: if_splits)

lemma client_times_Cons:
  "client_times c ((c', t) # calls) = (if c' = c then [t] else []) @ client_times c calls"
  by (simp add: client_times_def client_calls_def)

lemma client_times_append:
  "client_times c (xs @ ys) = client_times c xs @ client_times c ys"
  by (simp add: client_times_def client_calls_def)

lemma sorted_expire_append:
  "sorted (log @ rest) \<Longrightarrow> sorted (expire ws t log @ rest)"
  by (induction log) (auto simp: sorted_append)

lemma exec_sorted:
  "sorted (get_log s c @ client_times c calls) \<Longrightarrow> sorted (get_log (exec s calls) c)"
proof (induction s calls rule: exec.induct)
  case (1 s)
  then show ?case by (simp add: client_times_def client_calls_def)
next
  case (2 s c' t calls)
  show ?case
  proof (cases "c' = c")
    case True
    from "2.prems" True
    have a: "sorted (get_log s c @ [t] @ client_times c calls)"
      by (simp add: client_times_Cons)
    then have b: "sorted (expire (window_size s) t (get_log s c) @ [t] @ client_times c calls)"
      by (rule sorted_expire_append)
    then have "sorted (expire (window_size s) t (get_log s c) @ client_times c calls)"
      by (auto simp: sorted_append)
    with b True have "sorted (get_log (snd (allowRequest s c' t)) c @ client_times c calls)"
      by (simp add: allowRequest_log_same)
    from "2.IH" [OF this] show ?thesis by simp
  next
    case False
    with "2.prems" have "sorted (get_log (snd (allowRequest s c' t)) c @ client_times c calls)"
      by (simp add: allowRequest_log_other client_times_Cons)
    from "2.IH" [OF this] show ?thesis by simp
  qed
qed

subsection \<open>Counting admitted calls in a window\<close>

lemma admitted_Nil: "admitted c s [] = []"
  by (simp add: admitted_def)

lemma admitted_Cons:
  "admitted c s ((c', t) # calls) =
     (if c' = c \<and> fst (allowRequest s c' t) then [t] else [])
       @ admitted c (snd (allowRequest s c' t)) calls"
  by (auto simp: admitted_def)

lemma set_admitted_subset: "set (admitted c s calls) \<subseteq> set (client_times c calls)"
  by (induction s calls rule: exec.induct) (auto simp: admitted_Nil admitted_Cons client_times_Cons)

lemma filter_window_expire:
  "in_window a ws t \<Longrightarrow>
   filter (in_window a ws) (expire ws t log) = filter (in_window a ws) log"
  by (induction log) (auto simp: in_window_def)

lemma capacity_general:
  assumes "0 \<le> max_requests s"
    and "int (length (get_log s c)) \<le> max_requests s"
    and "sorted (client_times c calls)"
    and "\<forall>x\<in>set (get_log s c). \<forall>y\<in>set (client_times c calls). x \<le> y"
  shows "int (length (filter (in_window a (window_size s)) (get_log s c)))
         + int (length (filter (in_window a (window_size s)) (admitted c s calls)))
         \<le> max_requests s"
  using assms
proof (induction s calls rule: exec.induct)
  case (1 s)
  have "length (filter (in_window a (window_size s)) (get_log s c)) \<le> length (get_log s c)"
    by (rule length_filter_le)
  with "1.prems"(2) show ?case by (simp add: admitted_Nil del: length_filter_le)
next
  case (2 s c' t calls)
  let ?s1 = "snd (allowRequest s c' t)"
  let ?w = "window_size s"
  let ?L = "get_log s c"
  show ?case
  proof (cases "c' = c")
    case False
    have "int (length (filter (in_window a (window_size ?s1)) (get_log ?s1 c)))
         + int (length (filter (in_window a (window_size ?s1)) (admitted c ?s1 calls)))
         \<le> max_requests ?s1"
      using "2.prems" False
      by (intro "2.IH") (simp_all add: allowRequest_config allowRequest_log_other client_times_Cons)
    with False show ?thesis
      by (simp add: allowRequest_config allowRequest_log_other admitted_Cons)
  next
    case True
    note prems = "2.prems" [unfolded True] and hyp = "2.IH" [unfolded True]
    let ?s2 = "snd (allowRequest s c t)"
    let ?L' = "expire ?w t ?L"
    let ?adm = "fst (allowRequest s c t)"
    have L1: "get_log ?s2 c = (if ?adm then ?L' @ [t] else ?L')"
      by (simp add: allowRequest_log_same)
    have srt: "sorted (client_times c calls)" and later: "\<forall>y\<in>set (client_times c calls). t \<le> y"
      using prems(3) by (simp_all add: client_times_Cons)
    have earlier: "\<forall>x\<in>set ?L. x \<le> t"
      using prems(4) by (simp add: client_times_Cons)
    have len: "int (length (get_log ?s2 c)) \<le> max_requests s"
      using prems(2) length_expire_le [of ?w t ?L]
      by (simp add: L1 allowRequest_fst)
    have ord: "\<forall>x\<in>set (get_log ?s2 c). \<forall>y\<in>set (client_times c calls). x \<le> y"
      using prems(4) later set_expire_subset [of ?w t ?L]
      by (auto simp: L1 client_times_Cons)
    have IH: "int (length (filter (in_window a ?w) (get_log ?s2 c)))
         + int (length (filter (in_window a ?w) (admitted c ?s2 calls)))
         \<le> max_requests s"
      using hyp prems(1) len srt ord
      by (simp add: allowRequest_config)
    consider (inside) "in_window a ?w t" | (before) "t < a" | (after) "a + ?w \<le> t"
      by atomize_elim (auto simp: in_window_def)
    then have "int (length (filter (in_window a ?w) ?L))
         + int (length (filter (in_window a ?w) (admitted c s ((c, t) # calls))))
         \<le> max_requests s"
    proof cases
      case inside
      then have "filter (in_window a ?w) ?L' = filter (in_window a ?w) ?L"
        by (rule filter_window_expire)
      with IH inside show ?thesis
        by (simp add: L1 admitted_Cons split: if_splits)
    next
      case before
      with earlier have "filter (in_window a ?w) ?L = []"
        by (auto simp: filter_empty_conv in_window_def)
      moreover from before have "\<not> in_window a ?w t"
        by (simp add: in_window_def)
      ultimately show ?thesis
        using IH by (simp add: admitted_Cons)
    next
      case after
      have "\<forall>y\<in>set (admitted c ?s2 calls). t \<le> y"
        using later set_admitted_subset [of c ?s2 calls] by auto
      with after have "filter (in_window a ?w) (admitted c ?s2 calls) = []"
        by (auto simp: filter_empty_conv in_window_def)
      moreover from after have "\<not> in_window a ?w t"
        by (simp add: in_window_def)
      moreover have "length (filter (in_window a ?w) ?L) \<le> length ?L"
        by (rule length_filter_le)
      ultimately show ?thesis
        using prems(2) by (simp add: admitted_Cons del: length_filter_le)
    qed
    with True show ?thesis by simp
  qed
qed

subsection \<open>Denied calls in reachable states\<close>

text \<open>
  In a state reached from a fresh limiter a denied call finds nothing to expire: the
  log holds at most \<open>max_requests\<close> entries, and a denial needs that many left after
  expiry.
\<close>

lemma denied_call_expires_nothing:
  assumes "\<not> fst (allowRequest (exec (fresh mr ws) calls) c t)"
  shows "expire ws t (get_log (exec (fresh mr ws) calls) c) = get_log (exec (fresh mr ws) calls) c"
    and "0 < mr \<Longrightarrow> get_log (exec (fresh mr ws) calls) c \<noteq> []"
proof -
  let ?s = "exec (fresh mr ws) calls"
  let ?L = "get_log ?s c"
  have cfg: "max_requests ?s = mr" "window_size ?s = ws"
    by (simp_all add: exec_config) (simp_all add: fresh_def)
  have up: "int (length ?L) \<le> max mr 0"
    using exec_bounded [of "fresh mr ws" c calls]
    by (simp add: get_log_fresh) (simp add: fresh_def)
  have low: "mr \<le> int (length (expire ws t ?L))"
    using assms by (simp add: allowRequest_fst cfg)
  have le: "length (expire ws t ?L) \<le> length ?L"
    by (rule length_expire_le)
  from up low le have "length (expire ws t ?L) = length ?L"
    by (simp add: max_def split: if_splits)
  then show "expire ws t ?L = ?L"
    by (rule length_expire_same)
  show "?L \<noteq> []" if "0 < mr"
    using that low le by auto
qed

lemma denied_call_keeps_reachable_log:
  assumes "\<not> fst (allowRequest (exec (fresh mr ws) calls) c t)"
  shows "get_log (snd (allowRequest (exec (fresh mr ws) calls) c t)) c
           = get_log (exec (fresh mr ws) calls) c"
proof -
  have "window_size (exec (fresh mr ws) calls) = ws"
    by (simp add: exec_config) (simp add: fresh_def)
  with assms denied_call_expires_nothing(1) [OF assms] show ?thesis
    by (simp add: allowRequest_log_same)
qed

lemma rewrite_same_entry:
  "request_logs s c = Some l \<Longrightarrow> s\<lparr>request_logs := (request_logs s)(c \<mapsto> l)\<rparr> = s"
  by (simp add: fun_upd_idem)

section \<open>The claims\<close>

text \<open>
  C1: every call \<open>allowRequest clientId curr_time\<close> first drops from the front of the
  client's log the longest run of timestamps \<open>ts\<close> with \<open>curr_time - ts \<ge> window_size\<close>
  (so an entry exactly \<open>window_size\<close> old is dropped), and returns true exactly when
  the length of what remains is strictly below \<open>max_requests\<close>. What remains is the
  front of the stored log.
\<close>

theorem C1_expire_then_decide:
  "expire (window_size s) curr_time (get_log s clientId)
     = dropWhile (\<lambda>ts. curr_time - ts \<ge> window_size s) (get_log s clientId)
   \<and> expire ws (ts + ws) (ts # log) = expire ws (ts + ws) log
   \<and> fst (allowRequest s clientId curr_time)
     = (int (length (dropWhile (\<lambda>ts. curr_time - ts \<ge> window_size s) (get_log s clientId)))
          < max_requests s)
   \<and> (\<exists>added. request_logs (snd (allowRequest s clientId curr_time)) clientId
         = Some (dropWhile (\<lambda>ts. curr_time - ts \<ge> window_size s) (get_log s clientId) @ added))"
  by (simp add: allowRequest_def Let_def expire_dropWhile)

text \<open>
  C2: take a limiter built with \<open>max_requests = mr\<close>, where \<open>0 \<le> mr\<close> (the data model
  has \<open>mr\<close> positive), any sequence of calls in which the timestamps of client \<open>c\<close>
  are non-decreasing, and any half-open interval of length \<open>ws = window_size\<close>, written
  \<open>[a, a + ws)\<close> or \<open>(a, a + ws]\<close>. The calls of \<open>c\<close> that returned true and whose
  timestamps lie in the interval number at most \<open>mr\<close>.
\<close>

theorem C2_capacity:
  assumes "0 \<le> mr" and "sorted (client_times c calls)"
  shows "int (length (filter (in_window a ws) (admitted c (fresh mr ws) calls))) \<le> mr
       \<and> int (length (filter (\<lambda>ts. a < ts \<and> ts \<le> a + ws) (admitted c (fresh mr ws) calls))) \<le> mr"
proof -
  have cap: "int (length (filter (in_window b ws) (admitted c (fresh mr ws) calls))) \<le> mr" for b
    using capacity_general [of "fresh mr ws" c calls b] assms
    by (simp add: get_log_fresh) (simp add: fresh_def)
  have "(\<lambda>ts. a < ts \<and> ts \<le> a + ws) = in_window (a + 1) ws"
    by (auto simp: in_window_def fun_eq_iff)
  with cap [of a] cap [of "a + 1"] show ?thesis by simp
qed

theorem C2_witness:
  "(0::int) \<le> 2
   \<and> sorted (client_times ''A'' [(''A'', 1), (''B'', 0), (''A'', 2), (''A'', 2), (''A'', 11)])
   \<and> admitted ''A'' (fresh 2 10) [(''A'', 1), (''B'', 0), (''A'', 2), (''A'', 2), (''A'', 11)]
       = [1, 2, 11]
   \<and> int (length (filter (in_window 1 10)
        (admitted ''A'' (fresh 2 10) [(''A'', 1), (''B'', 0), (''A'', 2), (''A'', 2), (''A'', 11)])))
       \<le> 2"
  using C2_capacity [of 2 "''A''" "[(''A'', 1), (''B'', 0), (''A'', 2), (''A'', 2), (''A'', 11)]" 1 10]
  by (simp add: client_times_def client_calls_def admitted_def in_window_def
        allowRequest_def Let_def get_log_def fresh_def)

text \<open>
  The interval of C2 is half-open. An entry exactly \<open>window_size\<close> old is expired, so
  two admitted calls can be exactly \<open>window_size\<close> apart, and a closed interval
  \<open>[a, a + ws]\<close> can hold one more admitted call than \<open>max_requests\<close>.
\<close>

lemma closed_interval_one_more:
  "admitted ''A'' (fresh 1 10) [(''A'', 1), (''A'', 11)] = [1, 11]
   \<and> length (filter (\<lambda>ts. 1 \<le> ts \<and> ts \<le> 1 + 10)
        (admitted ''A'' (fresh 1 10) [(''A'', 1), (''A'', 11)])) = 2"
  by (simp add: admitted_def allowRequest_def Let_def get_log_def fresh_def)

text \<open>
  C3, as the code has it: \<^verbatim>\<open>__init__\<close> validates nothing. For all arguments,
  positive or not, construction succeeds, stores both arguments as given and starts
  with an empty client-log mapping.
\<close>

theorem C3_init_always_succeeds:
  "\<exists>s. init mr ws = Inr s \<and> max_requests s = mr \<and> window_size s = ws
       \<and> request_logs s = Map.empty"
  by (simp add: init_def fresh_def)

text \<open>
  The claim C3 as stated fails: with \<open>max_requests = 0\<close> construction does not raise
  \<open>InvalidConfiguration\<close>; it returns a limiter.
\<close>

theorem C3_counterexample:
  "(init 0 10 :: error + string limiter) \<noteq> Inl InvalidConfiguration
   \<and> (init 0 10 :: error + string limiter) = Inr (fresh 0 10)"
  by (simp add: init_def)

text \<open>
  C4: on a fresh limiter with \<open>max_requests = 2\<close> and \<open>window_size = 10\<close>, the calls
  for client "A" at times 1, 2, 2, 11 return true, true, false, true, and the log of
  "A" is then \<open>[2, 11]\<close>.
\<close>

theorem C4_boundary_scenario:
  "results (fresh 2 10) [(''A'', 1), (''A'', 2), (''A'', 2), (''A'', 11)] = [True, True, False, True]
   \<and> request_logs (exec (fresh 2 10) [(''A'', 1), (''A'', 2), (''A'', 2), (''A'', 11)]) ''A''
       = Some [2, 11]"
  by (simp add: allowRequest_def fresh_def get_log_def Let_def)

text \<open>
  C5: two runs on limiters built with the same arguments, whose call sequences contain
  the same calls of client \<open>c\<close> in the same order and differ in any way in the calls
  of other clients, return the same results to the calls of \<open>c\<close>.
\<close>

theorem C5_independence:
  "client_calls c calls1 = client_calls c calls2 \<Longrightarrow>
   client_results c (fresh mr ws) calls1 = client_results c (fresh mr ws) calls2"
  using client_results_project [of "fresh mr ws" "fresh mr ws" c calls1]
        client_results_project [of "fresh mr ws" "fresh mr ws" c calls2]
  by simp

theorem C5_witness:
  "client_calls ''A'' [(''A'', 1), (''B'', 1), (''A'', 1)]
     = client_calls ''A'' [(''C'', 0), (''A'', 1), (''A'', 1), (''B'', 5)]
   \<and> client_results ''A'' (fresh 1 2) [(''A'', 1), (''B'', 1), (''A'', 1)] = [True, False]
   \<and> client_results ''A'' (fresh 1 2) [(''C'', 0), (''A'', 1), (''A'', 1), (''B'', 5)]
     = [True, False]"
  using C5_independence [of "''A''" "[(''A'', 1), (''B'', 1), (''A'', 1)]"
          "[(''C'', 0), (''A'', 1), (''A'', 1), (''B'', 5)]" 1 2]
  by (simp add: client_calls_def client_results_def allowRequest_def Let_def get_log_def fresh_def)

text \<open>
  C6: after \<open>allowRequest clientId curr_time\<close> the client's log is the post-expiry log
  with \<open>curr_time\<close> appended at the end when the call returned true (one element
  longer), and the post-expiry log itself when it returned false.
\<close>

theorem C6_record_on_admission:
  "request_logs (snd (allowRequest s clientId curr_time)) clientId
     = Some (if fst (allowRequest s clientId curr_time)
             then expire (window_size s) curr_time (get_log s clientId) @ [curr_time]
             else expire (window_size s) curr_time (get_log s clientId))
   \<and> length (get_log (snd (allowRequest s clientId curr_time)) clientId)
     = length (expire (window_size s) curr_time (get_log s clientId))
       + (if fst (allowRequest s clientId curr_time) then 1 else 0)"
  by (simp add: allowRequest_def Let_def get_log_def)

text \<open>
  C7: take a limiter built with \<open>window_size = ws\<close>, where \<open>0 < ws\<close> (the data model has
  \<open>ws\<close> positive), and a sequence of calls ending in \<open>allowRequest c t\<close> in which the
  timestamps of client \<open>c\<close> are non-decreasing. Right after that last call every
  timestamp \<open>ts\<close> in the log of \<open>c\<close> has \<open>t - ts < ws\<close>.
\<close>

theorem C7_no_stale_entries:
  assumes "0 < ws" and "sorted (client_times c (calls @ [(c, t)]))"
  shows "\<forall>ts \<in> set (get_log (exec (fresh mr ws) (calls @ [(c, t)])) c). t - ts < ws"
proof
  fix ts
  let ?s = "exec (fresh mr ws) calls"
  assume m: "ts \<in> set (get_log (exec (fresh mr ws) (calls @ [(c, t)])) c)"
  from assms(2) have "sorted (client_times c calls)"
    by (simp add: client_times_append sorted_append)
  then have srt: "sorted (get_log ?s c)"
    using exec_sorted [of "fresh mr ws" c calls] by (simp add: get_log_fresh)
  have w: "window_size ?s = ws"
    by (simp add: exec_config) (simp add: fresh_def)
  from m have "ts \<in> set (expire ws t (get_log ?s c)) \<or> ts = t"
    by (auto simp: exec_append allowRequest_log_same w split: if_splits)
  then show "t - ts < ws"
    using expire_retained_young [OF srt] assms(1) by auto
qed

theorem C7_witness:
  "(0::int) < 10
   \<and> sorted (client_times ''A'' ([(''A'', 1), (''B'', 30), (''A'', 2)] @ [(''A'', 11)]))
   \<and> get_log (exec (fresh 2 10) ([(''A'', 1), (''B'', 30), (''A'', 2)] @ [(''A'', 11)])) ''A''
       = [2, 11]
   \<and> (11::int) - 2 < 10 \<and> (11::int) - 11 < 10"
  using C7_no_stale_entries [of 10 "''A''" "[(''A'', 1), (''B'', 30), (''A'', 2)]" 11 2]
  by (simp add: client_times_def client_calls_def allowRequest_def Let_def get_log_def fresh_def)

text \<open>
  C8: in every state reached from a fresh limiter by any sequence of calls, the log of
  every client has at most \<open>max max_requests 0\<close> entries.
\<close>

theorem C8_log_length_bounded:
  "int (length (get_log (exec (fresh mr ws) calls) c)) \<le> max mr 0"
  using exec_bounded [of "fresh mr ws" c calls]
  by (simp add: get_log_fresh) (simp add: fresh_def)

text \<open>
  C9: a call for \<open>clientId\<close> leaves the mapping entry of every other client \<open>c\<close> as it
  was, present or absent. It does not read that entry either: replacing it by any
  value \<open>v\<close> (or removing it) before the call gives the same result and the same
  state with that replacement made.
\<close>

theorem C9_other_clients_untouched:
  "c \<noteq> clientId \<Longrightarrow>
     request_logs (snd (allowRequest s clientId curr_time)) c = request_logs s c
     \<and> allowRequest (s\<lparr>request_logs := (request_logs s)(c := v)\<rparr>) clientId curr_time
       = (fst (allowRequest s clientId curr_time),
          (snd (allowRequest s clientId curr_time))
            \<lparr>request_logs := (request_logs (snd (allowRequest s clientId curr_time)))(c := v)\<rparr>)"
  by (simp add: allowRequest_def Let_def get_log_def fun_upd_twist)

theorem C9_witness:
  "''A'' \<noteq> ''B''
   \<and> request_logs (snd (allowRequest (snd (allowRequest (fresh 1 2) ''A'' 1)) ''B'' 1)) ''A''
     = Some [1]"
  using C9_other_clients_untouched [of "''A''" "''B''" "snd (allowRequest (fresh 1 2) ''A'' 1)" 1]
  by (simp add: allowRequest_def Let_def get_log_def fresh_def)

text \<open>
  C10, as the code has it: when \<open>allowRequest clientId curr_time\<close> returns false on a
  limiter reached from a fresh one by any sequence of calls, the client's log after the
  call is its log before the call with the expired prefix removed, and that prefix is
  empty: the log is unchanged. With \<open>0 < max_requests\<close> the whole limiter state is
  unchanged.
\<close>

theorem C10_denied_call_on_reachable_state:
  assumes "\<not> fst (allowRequest (exec (fresh mr ws) calls) clientId curr_time)"
  shows "request_logs (snd (allowRequest (exec (fresh mr ws) calls) clientId curr_time)) clientId
           = Some (dropWhile (\<lambda>ts. curr_time - ts \<ge> ws) (get_log (exec (fresh mr ws) calls) clientId))
       \<and> dropWhile (\<lambda>ts. curr_time - ts \<ge> ws) (get_log (exec (fresh mr ws) calls) clientId)
           = get_log (exec (fresh mr ws) calls) clientId
       \<and> (0 < mr \<longrightarrow>
            snd (allowRequest (exec (fresh mr ws) calls) clientId curr_time)
              = exec (fresh mr ws) calls)"
proof -
  let ?s = "exec (fresh mr ws) calls"
  let ?L = "get_log ?s clientId"
  have w: "window_size ?s = ws"
    by (simp add: exec_config) (simp add: fresh_def)
  have same: "expire ws curr_time ?L = ?L"
    using assms by (rule denied_call_expires_nothing(1))
  have after: "snd (allowRequest ?s clientId curr_time)
                 = ?s\<lparr>request_logs := (request_logs ?s)(clientId \<mapsto> ?L)\<rparr>"
    using assms same by (simp add: allowRequest_def Let_def w)
  have neutral: "snd (allowRequest ?s clientId curr_time) = ?s" if "0 < mr"
  proof -
    from assms that have "?L \<noteq> []" by (rule denied_call_expires_nothing(2))
    then have "request_logs ?s clientId = Some ?L"
      by (simp add: get_log_def split: option.splits)
    then show ?thesis unfolding after by (rule rewrite_same_entry)
  qed
  have stored: "request_logs (snd (allowRequest ?s clientId curr_time)) clientId = Some ?L"
    by (simp add: after)
  have drop: "dropWhile (\<lambda>ts. curr_time - ts \<ge> ws) ?L = ?L"
    using same by (simp add: expire_dropWhile)
  from neutral stored drop show ?thesis by simp
qed

theorem C10_witness:
  "\<not> fst (allowRequest (exec (fresh 2 10) [(''A'', 1), (''B'', 4), (''A'', 2)]) ''A'' 3)
   \<and> request_logs (snd (allowRequest (exec (fresh 2 10) [(''A'', 1), (''B'', 4), (''A'', 2)]) ''A'' 3)) ''A''
       = Some [1, 2]
   \<and> (0::int) < 2
   \<and> snd (allowRequest (exec (fresh 2 10) [(''A'', 1), (''B'', 4), (''A'', 2)]) ''A'' 3)
       = exec (fresh 2 10) [(''A'', 1), (''B'', 4), (''A'', 2)]"
  using C10_denied_call_on_reachable_state [of 2 10 "[(''A'', 1), (''B'', 4), (''A'', 2)]" "''A''" 3]
  by (simp add: allowRequest_def Let_def get_log_def fresh_def)

text \<open>
  The claim C10 as stated fails: it calls a denied request not state-neutral. With
  \<open>max_requests = 1\<close> and \<open>window_size = 10\<close>, after a call for "A" at time 1 the call
  for "A" at time 5 returns false and leaves the limiter exactly as it was.
\<close>

theorem C10_counterexample:
  "\<not> fst (allowRequest (exec (fresh 1 10) [(''A'', 1)]) ''A'' 5)
   \<and> snd (allowRequest (exec (fresh 1 10) [(''A'', 1)]) ''A'' 5) = exec (fresh 1 10) [(''A'', 1)]"
  by (simp add: allowRequest_def Let_def get_log_def fresh_def)

text \<open>
  The rest of C10 stands: a later call of the same client can return true once entries
  have aged out. Here the call at time 5 is denied and the call at time 11 admitted.
\<close>

lemma later_call_admitted_after_ageing:
  "results (fresh 1 10) [(''A'', 1), (''A'', 5), (''A'', 11)] = [True, False, True]"
  by (simp add: allowRequest_def Let_def get_log_def fresh_def)

end
